theory Spec2Isabelle
  imports Complex_Main "HOL-Library.AList" "HOL-Library.Sublist" "HOL-Library.List_Lexorder"
begin

section \<open>Strings, dictionaries and errors\<close>

text \<open>
  A Python \<open>str\<close> is a sequence of Unicode code points: \<open>len\<close> counts code points and
  the regular expressions of the program test code points. A string is therefore a
  list of code points; \<open>str\<close> embeds an ASCII literal.
\<close>

type_synonym codepoint = nat
type_synonym pystr = "codepoint list"

definition str :: "string \<Rightarrow> pystr" where
  "str s = map of_char s"

text \<open>\<open>needle in haystack\<close> on strings: the needle occurs as a contiguous run.\<close>

fun contains :: "'a list \<Rightarrow> 'a list \<Rightarrow> bool" where
  "contains needle [] = (needle = [])"
| "contains needle (c # cs) = (prefix needle (c # cs) \<or> contains needle cs)"

text \<open>\<open>s.startswith(p)\<close>.\<close>

definition startswith :: "'a list \<Rightarrow> 'a list \<Rightarrow> bool" where
  "startswith s p = prefix p s"

text \<open>
  \<open>s.split(sep)\<close> for a separator of one character: the result always has at least one
  segment, and one more segment than \<open>s\<close> has separators.
\<close>

fun split :: "'a \<Rightarrow> 'a list \<Rightarrow> 'a list list" where
  "split sep [] = [[]]"
| "split sep (c # cs) =
     (if c = sep then [] # split sep cs
      else (case split sep cs of [] \<Rightarrow> [[c]] | seg # segs \<Rightarrow> (c # seg) # segs))"

text \<open>
  A Python \<open>dict\<close> keeps its keys in insertion order, so it is an association list:
  \<open>d[k] = v\<close> is \<^const>\<open>AList.update\<close> (the value is replaced in place when \<open>k\<close> is a
  key, and appended otherwise), \<open>d.pop(k, None)\<close> is \<^const>\<open>AList.delete\<close>,
  \<open>d.get(k)\<close> is \<^const>\<open>map_of\<close> and \<open>k in d\<close> is membership in the list of keys.
  The keys of a \<open>dict\<close> are distinct.
\<close>

type_synonym 'v dict = "(pystr \<times> 'v) list"

definition keys :: "'v dict \<Rightarrow> pystr list" where
  "keys d = map fst d"

datatype error = KeyError | IndexError | ValueError | UnicodeEncodeError
  | IncompatibleItemType | OutOfRange

text \<open>\<open>d[k]\<close> raises \<open>KeyError\<close> when \<open>k\<close> is not a key.\<close>

definition getitem :: "'v dict \<Rightarrow> pystr \<Rightarrow> error + 'v" where
  "getitem d k = (case map_of d k of None \<Rightarrow> Inl KeyError | Some v \<Rightarrow> Inr v)"

text \<open>\<open>d.update(e)\<close>.\<close>

definition dict_update :: "'v dict \<Rightarrow> 'v dict \<Rightarrow> 'v dict" where
  "dict_update d e = fold (\<lambda>(k, v) acc. AList.update k v acc) e d"

section \<open>\<open>translate\<close>: the value-selection policy\<close>

text \<open>
  One entry of the remote service's answer, a JSON object. The members \<open>key\<close> and
  \<open>stage\<close> are read with \<open>item[...]\<close> (a missing member raises \<open>KeyError\<close>), the
  members \<open>translation\<close> and \<open>original\<close> with \<open>item.get(..., "")\<close>.
\<close>

record item =
  key :: "pystr option"
  translation :: "pystr option"
  original :: "pystr option"
  stage :: "int option"

definition get_default :: "pystr option \<Rightarrow> pystr" where
  "get_default m = (case m of None \<Rightarrow> [] | Some s \<Rightarrow> s)"

text \<open>
  The loop of \<open>translate\<close> over the fetched entries, with the two result lists as
  accumulators. The fetch itself is outside the model: its answer is the argument.
\<close>

fun translate_loop ::
  "item list \<Rightarrow> pystr list \<times> pystr list \<Rightarrow> error + (pystr list \<times> pystr list)" where
  "translate_loop [] (ks, vs) = Inr (ks, vs)"
| "translate_loop (it # its) (ks, vs) =
     (case key it of
        None \<Rightarrow> Inl KeyError
      | Some k \<Rightarrow>
          (let tr = get_default (translation it);
               orig = get_default (original it)
           in case stage it of
                None \<Rightarrow> Inl KeyError
              | Some st \<Rightarrow>
                  translate_loop its
                    (ks @ [k], vs @ [if st \<in> set [0, - 1, 2] \<or> tr = [] then orig else tr])))"

definition translate :: "item list \<Rightarrow> error + (pystr list \<times> pystr list)" where
  "translate translations = translate_loop translations ([], [])"

section \<open>\<open>save_translation\<close>: reconciliation against the source document\<close>

text \<open>
  What \<open>save_translation\<close> prints: the warning for a key that is dropped carries the
  first 50 characters of the key; the other message tells that the source document could
  not be opened.
\<close>

datatype message = UnmatchedKey pystr | SourceMissing

text \<open>
  The first loop: a key of the translation that is a key of the source document keeps
  its value in \<open>corrected_zh_cn_dict\<close>, any other key is appended to
  \<open>unmatched_paratranz_keys\<close>.
\<close>

fun direct_match ::
  "'v dict \<Rightarrow> 'v dict \<Rightarrow> 'v dict \<times> pystr list \<Rightarrow> 'v dict \<times> pystr list" where
  "direct_match [] source_json (corrected, unmatched) = (corrected, unmatched)"
| "direct_match ((pt_key, pt_value) # rest) source_json (corrected, unmatched) =
     (if pt_key \<in> set (keys source_json)
      then direct_match rest source_json (AList.update pt_key pt_value corrected, unmatched)
      else direct_match rest source_json (corrected, unmatched @ [pt_key]))"

text \<open>
  The second loop, over the unmatched keys. \<open>source_keys_set\<close> is a Python \<open>set\<close>,
  whose iteration order the language leaves open: the order is an argument of the model,
  a list of the source keys. The inner loop with its \<open>break\<close> is \<^const>\<open>find\<close>: the
  first key, in that order, that starts with the unmatched key.
\<close>

fun repair ::
  "'v dict \<Rightarrow> pystr list \<Rightarrow> pystr list \<Rightarrow> 'v dict \<times> message list
    \<Rightarrow> error + ('v dict \<times> message list)" where
  "repair zh_cn_dict source_keys_set [] (corrected, msgs) = Inr (corrected, msgs)"
| "repair zh_cn_dict source_keys_set (pt_key # rest) (corrected, msgs) =
     (if length pt_key = 255
      then (case find (\<lambda>source_key. startswith source_key pt_key) source_keys_set of
              Some source_key \<Rightarrow>
                (case getitem zh_cn_dict pt_key of
                   Inl e \<Rightarrow> Inl e
                 | Inr v \<Rightarrow>
                     repair zh_cn_dict source_keys_set rest
                       (AList.update source_key v corrected, msgs))
            | None \<Rightarrow>
                repair zh_cn_dict source_keys_set rest
                  (corrected, msgs @ [UnmatchedKey (take 50 pt_key)]))
      else repair zh_cn_dict source_keys_set rest
             (corrected, msgs @ [UnmatchedKey (take 50 pt_key)]))"

text \<open>
  The third loop builds \<open>final_json_object\<close> over the keys of the source document;
  the fallback \<open>source_json[source_key]\<close> is evaluated before the call of \<open>get\<close>.
\<close>

fun build_final :: "pystr list \<Rightarrow> 'v dict \<Rightarrow> 'v dict \<Rightarrow> 'v dict \<Rightarrow> error + 'v dict" where
  "build_final [] source_json corrected final = Inr final"
| "build_final (source_key # rest) source_json corrected final =
     (case getitem source_json source_key of
        Inl e \<Rightarrow> Inl e
      | Inr fallback \<Rightarrow>
          build_final rest source_json corrected
            (AList.update source_key
               (case map_of corrected source_key of Some v \<Rightarrow> v | None \<Rightarrow> fallback) final))"

text \<open>The dictionary comprehension of the \<open>except IOError\<close> branch.\<close>

fun sorted_dict :: "pystr list \<Rightarrow> 'v dict \<Rightarrow> 'v dict \<Rightarrow> error + 'v dict" where
  "sorted_dict [] zh_cn_dict acc = Inr acc"
| "sorted_dict (k # ks) zh_cn_dict acc =
     (case getitem zh_cn_dict k of
        Inl e \<Rightarrow> Inl e
      | Inr v \<Rightarrow> sorted_dict ks zh_cn_dict (AList.update k v acc))"

text \<open>
  \<open>save_translation\<close>: the source document is \<open>None\<close> when opening it raises
  \<open>IOError\<close>. The result is the dictionary handed to \<open>json.dump\<close>, with the messages
  printed. \<open>sorted\<close> compares strings lexicographically by code point.
\<close>

definition save_translation ::
  "'v dict \<Rightarrow> 'v dict option \<Rightarrow> pystr list \<Rightarrow> error + ('v dict \<times> message list)" where
  "save_translation zh_cn_dict source source_keys_set =
     (case source of
        Some source_json \<Rightarrow>
          (case direct_match zh_cn_dict source_json ([], []) of
             (corrected, unmatched) \<Rightarrow>
               (case repair zh_cn_dict source_keys_set unmatched (corrected, []) of
                  Inl e \<Rightarrow> Inl e
                | Inr (corrected', msgs) \<Rightarrow>
                    (case build_final (keys source_json) source_json corrected' [] of
                       Inl e \<Rightarrow> Inl e
                     | Inr final \<Rightarrow> Inr (final, msgs))))
      | None \<Rightarrow>
          (case sorted_dict (sort (keys zh_cn_dict)) zh_cn_dict [] of
             Inl e \<Rightarrow> Inl e
           | Inr d \<Rightarrow> Inr (d, [SourceMissing])))"

section \<open>\<open>process_translation\<close>: text normalization\<close>

text \<open>
  \<open>re.search(r'[U+4E00-U+9FFF]', value)\<close>: some code point of the value lies in the CJK
  Unified Ideographs block.
\<close>

definition has_cjk :: "pystr \<Rightarrow> bool" where
  "has_cjk value = list_ex (\<lambda>c. 19968 \<le> c \<and> c \<le> 40959) value"

text \<open>
  The two substitutions \<open>re.sub\<close> makes first, on the leftmost matches that do not
  overlap: two backslashes become one, then a backslash followed by \<open>n\<close> becomes a line
  feed. Code point 92 is the backslash, 110 is \<open>n\<close>, 10 the line feed.
\<close>

fun sub_backslashes :: "pystr \<Rightarrow> pystr" where
  "sub_backslashes (a # b # cs) =
     (if a = 92 \<and> b = 92 then 92 # sub_backslashes cs else a # sub_backslashes (b # cs))"
| "sub_backslashes cs = cs"

fun sub_newlines :: "pystr \<Rightarrow> pystr" where
  "sub_newlines (a # b # cs) =
     (if a = 92 \<and> b = 110 then 10 # sub_newlines cs else a # sub_newlines (b # cs))"
| "sub_newlines cs = cs"

text \<open>Every space (32) becomes a no-break space (160).\<close>

definition sub_spaces :: "pystr \<Rightarrow> pystr" where
  "sub_spaces value = map (\<lambda>c. if c = 32 then 160 else c) value"

text \<open>The body of the loop of \<open>process_translation\<close>, for one value.\<close>

definition normalize :: "pystr \<Rightarrow> pystr" where
  "normalize value =
     (let value = sub_newlines (sub_backslashes value)
      in if has_cjk value then sub_spaces value else value)"

text \<open>The value expression of the dictionary comprehension for a quest file.\<close>

definition quest_value :: "pystr \<Rightarrow> pystr" where
  "quest_value value =
     (if \<not> contains (str ''image'') value \<and> has_cjk value then sub_spaces value else value)"

text \<open>
  \<open>process_translation\<close>: \<open>source\<close> is the local reference document (\<open>None\<close> when
  opening it raises \<open>IOError\<close>) and \<open>path_name\<close> is the last component of the path.
\<close>

definition process_translation ::
  "item list \<Rightarrow> pystr dict option \<Rightarrow> pystr \<Rightarrow> error + pystr dict" where
  "process_translation translations source path_name =
     (case translate translations of
        Inl e \<Rightarrow> Inl e
      | Inr (ks, vs) \<Rightarrow>
          (let zh_cn_dict = (case source of Some d \<Rightarrow> d | None \<Rightarrow> []);
               zh_cn_dict =
                 fold (\<lambda>(k, value) d. AList.update k (normalize value) d) (zip ks vs) zh_cn_dict
           in if contains (str ''ftbquest'') path_name
              then Inr (fold (\<lambda>(k, value) d. AList.update k (quest_value value) d) (zip ks vs) [])
              else Inr zh_cn_dict))"

section \<open>\<open>json_to_nbt\<close> and \<open>format_snbt\<close>\<close>

text \<open>
  The values \<open>json_to_nbt\<close> can receive, by their Python type. \<open>bool\<close> is a subclass
  of \<open>int\<close> in Python.
\<close>

datatype json = JDict "(pystr \<times> json) list" | JList "json list" | JStr pystr | JInt int
  | JFloat real | JBool bool | JNull

text \<open>
  The tag classes \<open>Compound\<close>, \<open>List\<close>, \<open>String\<close> and \<open>Int\<close> of the tag library
  \<open>nbtlib\<close>, which the source imports. \<open>Int\<close> is a signed integer of 32 bits: its
  constructor raises \<open>OutOfRange\<close> for any other integer. \<open>List[String]\<close> is a list of
  \<open>String\<close> tags: its constructor raises \<open>IncompatibleItemType\<close> for a tag of another
  class among its items.
\<close>

datatype nbt = TagCompound "(pystr \<times> nbt) list" | TagList "nbt list" | TagString pystr | TagInt int

definition Int_tag :: "int \<Rightarrow> error + nbt" where
  "Int_tag n = (if - 2147483648 \<le> n \<and> n \<le> 2147483647 then Inr (TagInt n) else Inl OutOfRange)"

fun is_String :: "nbt \<Rightarrow> bool" where
  "is_String (TagString s) = True"
| "is_String t = False"

definition List_String :: "nbt list \<Rightarrow> error + nbt" where
  "List_String ts = (if list_all is_String ts then Inr (TagList ts) else Inl IncompatibleItemType)"

text \<open>
  \<open>json_to_nbt\<close>, with its \<open>isinstance\<close> tests in the order of the source. A boolean
  passes the test \<open>isinstance(data, int)\<close> and reaches \<open>Int(data)\<close>, where \<open>True\<close> is 1
  and \<open>False\<close> is 0. The first value that raises ends a comprehension; the items of a
  list are all converted before \<open>List[String]\<close> is called on them.
\<close>

fun json_to_nbt :: "json \<Rightarrow> error + nbt"
  and json_to_nbt_items :: "(pystr \<times> json) list \<Rightarrow> error + (pystr \<times> nbt) list"
  and json_to_nbt_list :: "json list \<Rightarrow> error + nbt list" where
  "json_to_nbt (JDict kvs) = (case json_to_nbt_items kvs of Inl e \<Rightarrow> Inl e | Inr ts \<Rightarrow> Inr (TagCompound ts))"
| "json_to_nbt (JList xs) = (case json_to_nbt_list xs of Inl e \<Rightarrow> Inl e | Inr ts \<Rightarrow> List_String ts)"
| "json_to_nbt (JStr s) = Inr (TagString s)"
| "json_to_nbt (JInt n) = Int_tag n"
| "json_to_nbt (JBool b) = Int_tag (if b then 1 else 0)"
| "json_to_nbt (JFloat _) = Inl ValueError"
| "json_to_nbt JNull = Inl ValueError"
| "json_to_nbt_items [] = Inr []"
| "json_to_nbt_items ((k, v) # kvs) =
     (case json_to_nbt v of Inl e \<Rightarrow> Inl e
      | Inr t \<Rightarrow> (case json_to_nbt_items kvs of Inl e \<Rightarrow> Inl e | Inr ts \<Rightarrow> Inr ((k, t) # ts)))"
| "json_to_nbt_list [] = Inr []"
| "json_to_nbt_list (v # vs) =
     (case json_to_nbt v of Inl e \<Rightarrow> Inl e
      | Inr t \<Rightarrow> (case json_to_nbt_list vs of Inl e \<Rightarrow> Inl e | Inr ts \<Rightarrow> Inr (t # ts)))"

text \<open>
  The text \<open>str\<close> gives for a scalar tag. A \<open>String\<close> tag is a Python string and
  \<open>str\<close> gives its characters. An \<open>Int\<close> tag is a Python integer whose class
  defines \<open>__repr__\<close>, and \<open>str\<close> of an integer is its \<open>repr\<close>: the class name and the
  decimal numeral in parentheses.
\<close>

fun digits :: "nat \<Rightarrow> pystr" where
  "digits n = (if n < 10 then [48 + n] else digits (n div 10) @ [48 + n mod 10])"

definition str_of_int :: "int \<Rightarrow> pystr" where
  "str_of_int n = (if n < 0 then 45 # digits (nat (- n)) else digits (nat n))"

fun tag_str :: "nbt \<Rightarrow> pystr" where
  "tag_str (TagString s) = s"
| "tag_str (TagInt n) = str ''Int('' @ str_of_int n @ str '')''"
| "tag_str t = []"

text \<open>
  \<open>format_snbt\<close>; \<open>format_items\<close> and \<open>format_list\<close> are its two loops. Code point 10
  is the line feed, 32 the space, 34 the double quote.
\<close>

fun format_snbt :: "nbt \<Rightarrow> nat \<Rightarrow> pystr"
  and format_items :: "(pystr \<times> nbt) list \<Rightarrow> nat \<Rightarrow> pystr"
  and format_list :: "nbt list \<Rightarrow> nat \<Rightarrow> pystr" where
  "format_snbt (TagCompound kvs) indent =
     str ''{'' @ format_items kvs indent @ [10] @ replicate indent 32 @ str ''}''"
| "format_snbt (TagList xs) indent =
     str ''['' @ format_list xs indent @ [10] @ replicate indent 32 @ str '']''"
| "format_snbt (TagString s) indent = [34] @ tag_str (TagString s) @ [34]"
| "format_snbt (TagInt n) indent = [34] @ tag_str (TagInt n) @ [34]"
| "format_items [] indent = []"
| "format_items ((k, v) # kvs) indent =
     ([10] @ replicate indent 32 @ replicate 4 32 @ k @ str '':'' @ format_snbt v (indent + 4))
     @ format_items kvs indent"
| "format_list [] indent = []"
| "format_list (x # xs) indent =
     ([10] @ replicate indent 32 @ replicate 4 32 @ format_snbt x (indent + 4))
     @ format_list xs indent"

section \<open>\<open>normal_json2_ftb_desc\<close>: aggregation of quest descriptions\<close>

text \<open>\<open>key.split(".")[1]\<close>: \<open>IndexError\<close> when the key has no dot (46).\<close>

definition key_id_of :: "pystr \<Rightarrow> error + pystr" where
  "key_id_of k = (case split 46 k of _ # key_id # _ \<Rightarrow> Inr key_id | _ \<Rightarrow> Inl IndexError)"

text \<open>
  The loop over \<open>list(en_json.items())\<close>. \<open>temp_set\<close> is a set of keys, kept as a
  list without repetition.
\<close>

fun desc_loop ::
  "json dict \<Rightarrow> json dict \<Rightarrow> json dict \<times> pystr list \<Rightarrow> error + (json dict \<times> pystr list)" where
  "desc_loop [] en_json (temp_en_json, temp_set) = Inr (temp_en_json, temp_set)"
| "desc_loop ((k, v) # rest) en_json (temp_en_json, temp_set) =
     (if contains (str ''desc'') k
      then (case key_id_of k of
              Inl e \<Rightarrow> Inl e
            | Inr key_id \<Rightarrow>
                (let temp_json_array =
                       map snd (filter (\<lambda>(k', v'). contains (key_id @ str ''.quest_desc'') k') en_json);
                     new_key = str ''quest.'' @ key_id @ str ''.quest_desc''
                 in desc_loop rest en_json
                      (AList.update new_key (JList temp_json_array) temp_en_json,
                       List.insert k temp_set)))
      else desc_loop rest en_json (temp_en_json, temp_set))"

text \<open>
  The first two lines of \<open>normal_json2_ftb_desc\<close>, on a dictionary of strings, which is
  what \<open>main\<close> passes: the dictionary is written with \<open>json.dumps\<close> and the text read
  back with \<open>eval\<close>. That gives a copy of the dictionary, unless a key or a value holds a
  surrogate code point (U+D800 to U+DFFF): \<open>json.dumps\<close> leaves it in the text, which
  \<open>eval\<close> cannot encode, and \<open>UnicodeEncodeError\<close> is raised.
\<close>

definition has_surrogate :: "pystr \<Rightarrow> bool" where
  "has_surrogate s = list_ex (\<lambda>c. 55296 \<le> c \<and> c \<le> 57343) s"

definition eval_dumps :: "pystr dict \<Rightarrow> error + json dict" where
  "eval_dumps origin_en_us =
     (if list_ex (\<lambda>(k, v). has_surrogate k \<or> has_surrogate v) origin_en_us
      then Inl UnicodeEncodeError
      else Inr (map (\<lambda>(k, v). (k, JStr v)) origin_en_us))"

text \<open>
  \<open>normal_json2_ftb_desc\<close>: after the loop the keys of \<open>temp_set\<close> are removed one by
  one, then \<open>temp_en_json\<close> is merged in.
\<close>

definition normal_json2_ftb_desc :: "pystr dict \<Rightarrow> error + json dict" where
  "normal_json2_ftb_desc origin_en_us =
     (case eval_dumps origin_en_us of
        Inl e \<Rightarrow> Inl e
      | Inr en_json \<Rightarrow>
          (case desc_loop en_json en_json ([], []) of
             Inl e \<Rightarrow> Inl e
           | Inr (temp_en_json, temp_set) \<Rightarrow>
               Inr (dict_update (fold AList.delete temp_set en_json) temp_en_json)))"

section \<open>Vocabulary of the statements\<close>

text \<open>A text between double quotes (code point 34).\<close>

definition quoted :: "pystr \<Rightarrow> pystr" where
  "quoted s = [34] @ s @ [34]"

text \<open>
  The values \<open>json_to_nbt\<close> builds a tree for: a mapping of such values, a sequence of
  strings, a string, an integer of the signed 32-bit range. After them, the four shapes a
  document value is made of: a mapping and a sequence of such values, a string, an integer.
\<close>

fun buildable :: "json \<Rightarrow> bool"
  and buildable_items :: "(pystr \<times> json) list \<Rightarrow> bool" where
  "buildable (JDict kvs) = buildable_items kvs"
| "buildable (JList xs) = list_all (\<lambda>x. case x of JStr s \<Rightarrow> True | _ \<Rightarrow> False) xs"
| "buildable (JStr s) = True"
| "buildable (JInt n) = (- 2147483648 \<le> n \<and> n \<le> 2147483647)"
| "buildable (JFloat x) = False"
| "buildable (JBool b) = False"
| "buildable JNull = False"
| "buildable_items [] = True"
| "buildable_items ((k, v) # kvs) = (buildable v \<and> buildable_items kvs)"

text \<open>No key and no value of the dictionary holds a surrogate code point.\<close>

definition surrogate_free :: "pystr dict \<Rightarrow> bool" where
  "surrogate_free d = (\<not> list_ex (\<lambda>(k, v). has_surrogate k \<or> has_surrogate v) d)"

fun permitted :: "json \<Rightarrow> bool"
  and permitted_items :: "(pystr \<times> json) list \<Rightarrow> bool"
  and permitted_list :: "json list \<Rightarrow> bool" where
  "permitted (JDict kvs) = permitted_items kvs"
| "permitted (JList xs) = permitted_list xs"
| "permitted (JStr s) = True"
| "permitted (JInt n) = True"
| "permitted (JFloat x) = False"
| "permitted (JBool b) = False"
| "permitted JNull = False"
| "permitted_items [] = True"
| "permitted_items ((k, v) # kvs) = (permitted v \<and> permitted_items kvs)"
| "permitted_list [] = True"
| "permitted_list (x # xs) = (permitted x \<and> permitted_list xs)"

section \<open>Properties of \<open>translate\<close>\<close>

lemma translate_loop_acc:
  assumes "\<forall>it \<in> set its. key it \<noteq> None \<and> stage it \<noteq> None"
  shows "translate_loop its (ks, vs) =
    Inr (ks @ map (\<lambda>it. the (key it)) its,
         vs @ map (\<lambda>it. if the (stage it) \<in> {0, - 1, 2} \<or> get_default (translation it) = []
                         then get_default (original it)
                         else get_default (translation it)) its)"
  using assms
proof (induction its arbitrary: ks vs)
  case Nil
  then show ?case by simp
next
  case (Cons it its)
  from Cons.prems obtain k st where it: "key it = Some k" "stage it = Some st"
    by auto
  from Cons.prems have rest: "\<forall>it \<in> set its. key it \<noteq> None \<and> stage it \<noteq> None"
    by simp
  show ?case
    by (simp add: it Cons.IH [OF rest] Let_def)
qed

text \<open>
  C2. For entries that carry a key and a stage, \<open>translate\<close> returns one key and one
  value per entry, in order; the value of an entry is its original text when its stage is
  0, -1 or 2 or when its translation is absent or empty, and its translation in every
  other case. (An absent original text reads as the empty string.)
\<close>

theorem translate_value_selection:
  assumes "\<forall>it \<in> set translations. key it \<noteq> None \<and> stage it \<noteq> None"
  shows "\<exists>ks vs. translate translations = Inr (ks, vs)
    \<and> length ks = length translations \<and> length vs = length translations
    \<and> (\<forall>i < length translations.
          key (translations ! i) = Some (ks ! i)
        \<and> vs ! i =
            (if stage (translations ! i) \<in> {Some 0, Some (- 1), Some 2}
                \<or> translation (translations ! i) \<in> {None, Some []}
             then get_default (original (translations ! i))
             else the (translation (translations ! i))))"
proof -
  let ?ks = "map (\<lambda>it. the (key it)) translations"
  let ?vs = "map (\<lambda>it. if the (stage it) \<in> {0, - 1, 2} \<or> get_default (translation it) = []
                         then get_default (original it)
                         else get_default (translation it)) translations"
  have run: "translate translations = Inr (?ks, ?vs)"
    using translate_loop_acc [OF assms, of "[]" "[]"] by (simp add: translate_def)
  have each: "key (translations ! i) = Some (?ks ! i)
        \<and> ?vs ! i =
            (if stage (translations ! i) \<in> {Some 0, Some (- 1), Some 2}
                \<or> translation (translations ! i) \<in> {None, Some []}
             then get_default (original (translations ! i))
             else the (translation (translations ! i)))"
    if "i < length translations" for i
  proof -
    from that have "translations ! i \<in> set translations" by simp
    with assms obtain k st where
      it: "key (translations ! i) = Some k" "stage (translations ! i) = Some st"
      by auto
    show ?thesis
      using that by (auto simp: it get_default_def split: option.splits)
  qed
  show ?thesis
    using run each by simp
qed

theorem translate_value_selection_witness:
  "\<exists>ks vs. translate
     [\<lparr>key = Some (str ''a''), translation = Some [30002], original = Some (str ''A''),
       stage = Some 1\<rparr>,
      \<lparr>key = Some (str ''b''), translation = Some [20057], original = Some (str ''B''),
       stage = Some 2\<rparr>,
      \<lparr>key = Some (str ''c''), translation = None, original = Some (str ''C''),
       stage = Some 1\<rparr>] = Inr (ks, vs)
   \<and> vs ! 0 = [30002] \<and> vs ! 1 = str ''B'' \<and> vs ! 2 = str ''C''"
proof -
  let ?E = "[\<lparr>key = Some (str ''a''), translation = Some [30002], original = Some (str ''A''),
       stage = Some 1\<rparr>,
      \<lparr>key = Some (str ''b''), translation = Some [20057], original = Some (str ''B''),
       stage = Some 2\<rparr>,
      \<lparr>key = Some (str ''c''), translation = None, original = Some (str ''C''),
       stage = Some (1::int)\<rparr>]"
  have h: "\<forall>it \<in> set ?E. key it \<noteq> None \<and> stage it \<noteq> None"
    by simp
  from translate_value_selection [OF h] obtain ks vs where
    r: "translate ?E = Inr (ks, vs)" and
    each: "\<forall>i < length ?E. vs ! i =
            (if stage (?E ! i) \<in> {Some 0, Some (- 1), Some 2}
                \<or> translation (?E ! i) \<in> {None, Some []}
             then get_default (original (?E ! i))
             else the (translation (?E ! i)))"
    by blast
  from each have "vs ! 0 = [30002]" by simp
  moreover from each have "vs ! 1 = str ''B''" by (simp add: get_default_def)
  moreover from each have "vs ! 2 = str ''C''" by (simp add: get_default_def)
  ultimately show ?thesis using r by blast
qed

section \<open>Properties of \<open>save_translation\<close>\<close>

lemma keys_simps [simp]: "keys [] = []" "keys ((k, v) # d) = k # keys d"
  by (simp_all add: keys_def)

lemma getitem_in: "k \<in> set (keys d) \<Longrightarrow> \<exists>v. getitem d k = Inr v \<and> map_of d k = Some v"
  by (cases "map_of d k") (auto simp: getitem_def keys_def map_of_eq_None_iff)

lemma direct_match_unmatched:
  "snd (direct_match zh S (c, u)) = u @ filter (\<lambda>k. k \<notin> set (keys S)) (keys zh)"
  by (induction zh arbitrary: c u) auto

lemma direct_match_corrected:
  "fst (direct_match zh S (c, u)) = dict_update c (filter (\<lambda>(k, v). k \<in> set (keys S)) zh)"
  by (induction zh arbitrary: c u) (auto simp: dict_update_def)

lemma repair_total:
  "set u \<subseteq> set (keys zh) \<Longrightarrow> \<exists>c' msgs'. repair zh ks u (c, msgs) = Inr (c', msgs')"
proof (induction u arbitrary: c msgs)
  case Nil
  then show ?case by simp
next
  case (Cons k u)
  then obtain v where "getitem zh k = Inr v" using getitem_in [of k zh] by auto
  with Cons show ?case by (auto split: option.splits)
qed

lemma repair_keys:
  "repair zh ks u (c, msgs) = Inr (c', msgs') \<Longrightarrow> set (keys c') \<subseteq> set (keys c) \<union> set ks"
proof (induction u arbitrary: c msgs)
  case Nil
  then show ?case by simp
next
  case (Cons k u)
  show ?case
  proof (cases "length k = 255")
    case False
    with Cons show ?thesis by simp
  next
    case True
    show ?thesis
    proof (cases "find (\<lambda>sk. startswith sk k) ks")
      case None
      with True Cons show ?thesis by simp
    next
      case (Some sk)
      then have "sk \<in> set ks" by (auto simp: find_Some_iff)
      from Cons.prems True Some obtain v where
        r: "repair zh ks u (AList.update sk v c, msgs) = Inr (c', msgs')"
        by (auto split: sum.splits)
      have "set (keys (AList.update sk v c)) \<subseteq> set (keys c) \<union> set ks"
        using \<open>sk \<in> set ks\<close> by (auto simp: keys_def AList.update_keys)
      with Cons.IH [OF r] show ?thesis by blast
    qed
  qed
qed

lemma build_final_other:
  "build_final ks S c f = Inr final \<Longrightarrow> k \<notin> set ks \<Longrightarrow> map_of final k = map_of f k"
proof (induction ks arbitrary: f)
  case Nil
  then show ?case by simp
next
  case (Cons a ks)
  then show ?case
    by (auto simp: AList.update_conv' split: sum.splits)
qed

lemma build_final_result:
  assumes "set ks \<subseteq> set (keys S)"
  shows "\<exists>final. build_final ks S c f = Inr final
    \<and> set (keys final) = set (keys f) \<union> set ks
    \<and> (distinct (keys f @ ks) \<longrightarrow> keys final = keys f @ ks)
    \<and> (\<forall>k \<in> set ks. map_of final k =
          (case map_of c k of Some v \<Rightarrow> Some v | None \<Rightarrow> map_of S k))"
  using assms
proof (induction ks arbitrary: f)
  case Nil
  then show ?case by simp
next
  case (Cons k ks)
  then obtain v0 where v0: "getitem S k = Inr v0" "map_of S k = Some v0"
    using getitem_in [of k S] by auto
  let ?f = "AList.update k (case map_of c k of Some v \<Rightarrow> v | None \<Rightarrow> v0) f"
  from Cons.prems have "set ks \<subseteq> set (keys S)" by simp
  from Cons.IH [OF this, of ?f] obtain final where
    r: "build_final ks S c ?f = Inr final"
    and s: "set (keys final) = set (keys ?f) \<union> set ks"
    and d: "distinct (keys ?f @ ks) \<longrightarrow> keys final = keys ?f @ ks"
    and m: "\<forall>k \<in> set ks. map_of final k =
          (case map_of c k of Some v \<Rightarrow> Some v | None \<Rightarrow> map_of S k)"
    by blast
  have kf: "keys ?f = (if k \<in> set (keys f) then keys f else keys f @ [k])"
    by (simp add: keys_def AList.update_keys)
  have run: "build_final (k # ks) S c f = Inr final"
    using v0 r by simp
  have "set (keys final) = set (keys f) \<union> set (k # ks)"
    using s kf by auto
  moreover have "keys final = keys f @ k # ks" if "distinct (keys f @ k # ks)"
  proof -
    from that have "k \<notin> set (keys f)" by auto
    with kf have "keys ?f = keys f @ [k]" by simp
    with d that show ?thesis by simp
  qed
  moreover have "map_of final k' =
      (case map_of c k' of Some v \<Rightarrow> Some v | None \<Rightarrow> map_of S k')"
    if "k' \<in> set (k # ks)" for k'
  proof (cases "k' \<in> set ks")
    case True
    with m show ?thesis by blast
  next
    case False
    with that have eq: "k' = k" by simp
    have "map_of final k = map_of ?f k"
      using r False eq build_final_other by blast
    then show ?thesis
      by (simp add: eq AList.update_conv' v0 split: option.splits)
  qed
  ultimately show ?case using run by blast
qed

lemma sorted_dict_result:
  assumes "set ks \<subseteq> set (keys zh)"
  shows "\<exists>d. sorted_dict ks zh acc = Inr d
    \<and> set (keys d) = set (keys acc) \<union> set ks
    \<and> (distinct (keys acc) \<longrightarrow> distinct (keys d))
    \<and> (sorted (keys acc @ ks) \<longrightarrow> sorted (keys d))"
  using assms
proof (induction ks arbitrary: acc)
  case Nil
  then show ?case by simp
next
  case (Cons k ks)
  then obtain v where v: "getitem zh k = Inr v"
    using getitem_in [of k zh] by auto
  let ?a = "AList.update k v acc"
  from Cons.prems have "set ks \<subseteq> set (keys zh)" by simp
  from Cons.IH [OF this, of ?a] obtain d where
    r: "sorted_dict ks zh ?a = Inr d"
    and s: "set (keys d) = set (keys ?a) \<union> set ks"
    and o: "distinct (keys ?a) \<longrightarrow> distinct (keys d)"
    and t: "sorted (keys ?a @ ks) \<longrightarrow> sorted (keys d)"
    by blast
  have ka: "keys ?a = (if k \<in> set (keys acc) then keys acc else keys acc @ [k])"
    by (simp add: keys_def AList.update_keys)
  have "sorted_dict (k # ks) zh acc = Inr d" using v r by simp
  moreover have "set (keys d) = set (keys acc) \<union> set (k # ks)"
    using s ka by auto
  moreover have "distinct (keys d)" if "distinct (keys acc)"
    using o that ka by auto
  moreover have "sorted (keys d)" if "sorted (keys acc @ k # ks)"
  proof -
    from that have "sorted (keys ?a @ ks)"
      by (auto simp: ka sorted_append)
    with t show ?thesis by blast
  qed
  ultimately show ?case by blast
qed

lemma save_translation_source:
  "\<exists>corrected msgs final. 
     repair zh ks (filter (\<lambda>k. k \<notin> set (keys S)) (keys zh))
       (dict_update [] (filter (\<lambda>(k, v). k \<in> set (keys S)) zh), []) = Inr (corrected, msgs)
   \<and> build_final (keys S) S corrected [] = Inr final
   \<and> save_translation zh (Some S) ks = Inr (final, msgs)"
proof -
  let ?u = "filter (\<lambda>k. k \<notin> set (keys S)) (keys zh)"
  let ?c = "dict_update [] (filter (\<lambda>(k, v). k \<in> set (keys S)) zh)"
  have dm: "direct_match zh S ([], []) = (?c, ?u)"
    using direct_match_unmatched [of zh S "[]" "[]"] direct_match_corrected [of zh S "[]" "[]"]
    by (simp add: prod_eq_iff)
  have "set ?u \<subseteq> set (keys zh)" by auto
  from repair_total [OF this] obtain corrected msgs where
    rp: "repair zh ks ?u (?c, []) = Inr (corrected, msgs)" by blast
  from build_final_result [of "keys S" S corrected "[]"] obtain final where
    bf: "build_final (keys S) S corrected [] = Inr final" by auto
  have "save_translation zh (Some S) ks = Inr (final, msgs)"
    by (simp add: save_translation_def dm rp bf)
  with rp bf show ?thesis by blast
qed

text \<open>
  C1. Whenever the source document exists, \<open>save_translation\<close> returns a document
  whose set of keys is exactly the set of keys of the source document, whatever keys the
  translation has and whatever the iteration order of the key set is.
\<close>

theorem save_translation_key_coverage:
  "\<exists>final msgs. save_translation zh (Some S) source_keys_set = Inr (final, msgs)
     \<and> set (keys final) = set (keys S)"
proof -
  from save_translation_source [of zh source_keys_set S] obtain corrected msgs final where
    bf: "build_final (keys S) S corrected [] = Inr final"
    and st: "save_translation zh (Some S) source_keys_set = Inr (final, msgs)"
    by blast
  from build_final_result [of "keys S" S corrected "[]"] bf
  have "set (keys final) = set (keys S)" by auto
  with st show ?thesis by blast
qed

theorem save_translation_key_coverage_witness:
  "\<exists>final msgs.
     save_translation [(str ''a'', [30002::nat]), (str ''zz'', str ''Z'')]
       (Some [(str ''a'', str ''A''), (str ''b'', str ''B'')]) [str ''b'', str ''a'']
     = Inr (final, msgs)
   \<and> set (keys final) = {str ''a'', str ''b''}"
  using save_translation_key_coverage
    [of "[(str ''a'', [30002::nat]), (str ''zz'', str ''Z'')]"
        "[(str ''a'', str ''A''), (str ''b'', str ''B'')]" "[str ''b'', str ''a'']"]
  by (simp add: insert_commute)

text \<open>
  C4. When the source document exists, the keys of the document written come in the order
  of the source document (a dictionary, so its keys are distinct). When it is missing, the
  keys of the document written are those of the translation, in lexicographic order.
\<close>

theorem save_translation_order:
  "(distinct (keys S) \<longrightarrow>
      (\<exists>final msgs. save_translation zh (Some S) source_keys_set = Inr (final, msgs)
         \<and> keys final = keys S))
   \<and> (\<exists>d msgs. save_translation zh None source_keys_set = Inr (d, msgs)
         \<and> sorted (keys d) \<and> set (keys d) = set (keys zh))"
proof (intro conjI impI)
  assume dist: "distinct (keys S)"
  from save_translation_source [of zh source_keys_set S] obtain corrected msgs final where
    bf: "build_final (keys S) S corrected [] = Inr final"
    and st: "save_translation zh (Some S) source_keys_set = Inr (final, msgs)"
    by blast
  from build_final_result [of "keys S" S corrected "[]"] bf dist
  have "keys final = keys S" by auto
  with st show "\<exists>final msgs. save_translation zh (Some S) source_keys_set = Inr (final, msgs)
         \<and> keys final = keys S" by blast
next
  from sorted_dict_result [of "sort (keys zh)" zh "[]"] obtain d where
    "sorted_dict (sort (keys zh)) zh [] = Inr d" "set (keys d) = set (keys zh)"
    "sorted (keys d)" by auto
  then show "\<exists>d msgs. save_translation zh None source_keys_set = Inr (d, msgs)
         \<and> sorted (keys d) \<and> set (keys d) = set (keys zh)"
    by (simp add: save_translation_def)
qed

theorem save_translation_order_witness:
  "distinct (keys [(str ''b'', str ''B''), (str ''a'', str ''A'')])
   \<and> (\<exists>final msgs.
        save_translation [(str ''c'', [19969::nat]), (str ''a'', [30002::nat])]
          (Some [(str ''b'', str ''B''), (str ''a'', str ''A'')]) [str ''a'', str ''b'']
        = Inr (final, msgs)
      \<and> keys final = [str ''b'', str ''a''])
   \<and> (\<exists>d msgs.
        save_translation [(str ''c'', [19969::nat]), (str ''a'', [30002::nat])] None [] = Inr (d, msgs)
      \<and> sorted (keys d) \<and> set (keys d) = {str ''c'', str ''a''})"
proof -
  have h: "distinct (keys [(str ''b'', str ''B''), (str ''a'', str ''A'')])"
    by (simp add: str_def)
  from save_translation_order
    [of "[(str ''b'', str ''B''), (str ''a'', str ''A'')]"
        "[(str ''c'', [19969::nat]), (str ''a'', [30002::nat])]" "[str ''a'', str ''b'']"] h
  have a: "\<exists>final msgs.
        save_translation [(str ''c'', [19969::nat]), (str ''a'', [30002::nat])]
          (Some [(str ''b'', str ''B''), (str ''a'', str ''A'')]) [str ''a'', str ''b'']
        = Inr (final, msgs)
      \<and> keys final = [str ''b'', str ''a'']"
    by simp
  from save_translation_order
    [of "[(str ''b'', str ''B''), (str ''a'', str ''A'')]"
        "[(str ''c'', [19969::nat]), (str ''a'', [30002::nat])]" "[]"]
  have b: "\<exists>d msgs.
        save_translation [(str ''c'', [19969::nat]), (str ''a'', [30002::nat])] None [] = Inr (d, msgs)
      \<and> sorted (keys d) \<and> set (keys d) = {str ''c'', str ''a''}"
    by simp
  from h a b show ?thesis by blast
qed

lemma same_length_prefix:
  "prefix k s \<Longrightarrow> prefix k' s \<Longrightarrow> length k = length k' \<Longrightarrow> k = k'"
  by (metis append_eq_append_conv prefix_def)

lemma repair_preserves:
  assumes "\<forall>k' \<in> set u. length k' = 255 \<longrightarrow> find (\<lambda>s. startswith s k') ks \<noteq> Some sk"
    and "repair zh ks u (c, msgs) = Inr (c', msgs')"
  shows "map_of c' sk = map_of c sk"
  using assms
proof (induction u arbitrary: c msgs)
  case Nil
  then show ?case by simp
next
  case (Cons p u)
  from Cons.prems(1) have rest:
    "\<forall>k' \<in> set u. length k' = 255 \<longrightarrow> find (\<lambda>s. startswith s k') ks \<noteq> Some sk"
    by simp
  show ?case
  proof (cases "length p = 255")
    case False
    with Cons.prems(2) Cons.IH [OF rest] show ?thesis by simp
  next
    case True
    show ?thesis
    proof (cases "find (\<lambda>s. startswith s p) ks")
      case None
      with True Cons.prems(2) Cons.IH [OF rest] show ?thesis by simp
    next
      case (Some s')
      with True Cons.prems(1) have ne: "s' \<noteq> sk" by auto
      from Cons.prems(2) True Some obtain v where
        r: "repair zh ks u (AList.update s' v c, msgs) = Inr (c', msgs')"
        by (auto split: sum.splits)
      from Cons.IH [OF rest r] ne show ?thesis
        by (simp add: AList.update_conv')
    qed
  qed
qed

lemma repair_binds:
  assumes "distinct u" and "k \<in> set u" and "length k = 255"
    and "find (\<lambda>s. startswith s k) ks = Some sk" and "map_of zh k = Some v"
    and "repair zh ks u (c, msgs) = Inr (c', msgs')"
  shows "map_of c' sk = Some v"
  using assms(1,2,6)
proof (induction u arbitrary: c msgs)
  case Nil
  then show ?case by simp
next
  case (Cons p u)
  from assms(4) have pk: "prefix k sk"
    by (auto simp: find_Some_iff startswith_def)
  show ?case
  proof (cases "p = k")
    case True
    from Cons.prems(3) True assms(3,4,5) have
      r: "repair zh ks u (AList.update sk v c, msgs) = Inr (c', msgs')"
      by (simp add: getitem_def)
    have "\<forall>k' \<in> set u. length k' = 255 \<longrightarrow> find (\<lambda>s. startswith s k') ks \<noteq> Some sk"
    proof (intro ballI impI notI)
      fix k' assume k': "k' \<in> set u" "length k' = 255"
        "find (\<lambda>s. startswith s k') ks = Some sk"
      then have "prefix k' sk" by (auto simp: find_Some_iff startswith_def)
      with pk k'(2) assms(3) have "k = k'" by (simp add: same_length_prefix)
      with k'(1) Cons.prems(1) True show False by simp
    qed
    from repair_preserves [OF this r] show ?thesis
      by (simp add: AList.update_conv')
  next
    case False
    with Cons.prems have ku: "k \<in> set u" and du: "distinct u" by auto
    from Cons.prems(3) obtain c1 m1 where
      r: "repair zh ks u (c1, m1) = Inr (c', msgs')"
      by (auto split: if_splits option.splits sum.splits)
    from Cons.IH [OF du ku r] show ?thesis .
  qed
qed

lemma repair_msgs_mono:
  "repair zh ks u (c, msgs) = Inr (c', msgs') \<Longrightarrow> set msgs \<subseteq> set msgs'"
proof (induction u arbitrary: c msgs)
  case Nil
  then show ?case by simp
next
  case (Cons p u)
  then show ?case
    by (fastforce split: if_splits option.splits sum.splits)
qed

lemma repair_warns:
  assumes "k \<in> set u" and "length k \<noteq> 255 \<or> find (\<lambda>s. startswith s k) ks = None"
    and "repair zh ks u (c, msgs) = Inr (c', msgs')"
  shows "UnmatchedKey (take 50 k) \<in> set msgs'"
  using assms(1,3)
proof (induction u arbitrary: c msgs)
  case Nil
  then show ?case by simp
next
  case (Cons p u)
  show ?case
  proof (cases "p = k")
    case True
    with Cons.prems(2) assms(2) have
      "repair zh ks u (c, msgs @ [UnmatchedKey (take 50 k)]) = Inr (c', msgs')"
      by (auto split: if_splits)
    from repair_msgs_mono [OF this] show ?thesis by simp
  next
    case False
    with Cons.prems have ku: "k \<in> set u" by simp
    from Cons.prems(2) obtain c1 m1 where
      r: "repair zh ks u (c1, m1) = Inr (c', msgs')"
      by (auto split: if_splits option.splits sum.splits)
    from Cons.IH [OF ku r] show ?thesis .
  qed
qed

lemma repair_dropped:
  assumes "length k \<noteq> 255 \<or> find (\<lambda>s. startswith s k) ks = None"
    and "repair zh ks u (c, msgs) = Inr (c', msgs')"
  shows "\<exists>m2'. repair (AList.delete k zh) ks (removeAll k u) (c, m2) = Inr (c', m2')"
  using assms(2)
proof (induction u arbitrary: c msgs m2)
  case Nil
  then show ?case by simp
next
  case (Cons p u)
  show ?case
  proof (cases "p = k")
    case True
    with Cons.prems assms(1) have
      "repair zh ks u (c, msgs @ [UnmatchedKey (take 50 k)]) = Inr (c', msgs')"
      by (auto split: if_splits)
    from Cons.IH [OF this] True show ?thesis by simp
  next
    case False
    then have g: "getitem (AList.delete k zh) p = getitem zh p"
      by (simp add: getitem_def)
    show ?thesis
    proof (cases "length p = 255")
      case l: False
      with Cons.prems have
        "repair zh ks u (c, msgs @ [UnmatchedKey (take 50 p)]) = Inr (c', msgs')" by simp
      from Cons.IH [OF this] False l show ?thesis by simp
    next
      case l: True
      show ?thesis
      proof (cases "find (\<lambda>s. startswith s p) ks")
        case None
        with l Cons.prems have
          "repair zh ks u (c, msgs @ [UnmatchedKey (take 50 p)]) = Inr (c', msgs')" by simp
        from Cons.IH [OF this] False l None show ?thesis by simp
      next
        case (Some s')
        with l Cons.prems obtain v where v: "getitem zh p = Inr v"
          and r: "repair zh ks u (AList.update s' v c, msgs) = Inr (c', msgs')"
          by (auto split: sum.splits)
        from Cons.IH [OF r] False l Some v g show ?thesis by simp
      qed
    qed
  qed
qed

lemma find_first:
  assumes "i < length ks" and "P (ks ! i)" and "\<forall>j<i. \<not> P (ks ! j)"
  shows "find P ks = Some (ks ! i)"
  using assms by (auto simp: find_Some_iff)

lemma delete_unmatched:
  "filter (\<lambda>k'. k' \<notin> set (keys S)) (keys (AList.delete k zh)) =
   removeAll k (filter (\<lambda>k'. k' \<notin> set (keys S)) (keys zh))"
  by (induction zh) auto

lemma delete_matched:
  "k \<notin> set (keys S) \<Longrightarrow>
   filter (\<lambda>(k', v). k' \<in> set (keys S)) (AList.delete k zh) =
   filter (\<lambda>(k', v). k' \<in> set (keys S)) zh"
  by (induction zh) auto

text \<open>
  C3. A key of the translation that is no key of the source document: when its length is
  255, its value is bound to the first key of the key set, in the order the set is iterated,
  that starts with it. When its length is not 255, or no source key starts with it, the
  warning is printed and the document written is the one written without that entry.
\<close>

theorem save_translation_unmatched_key:
  assumes "distinct (keys zh)" and "set source_keys_set = set (keys S)"
    and "map_of zh k = Some v" and "k \<notin> set (keys S)"
  shows "\<exists>final msgs. save_translation zh (Some S) source_keys_set = Inr (final, msgs)
    \<and> (\<forall>i < length source_keys_set.
          length k = 255 \<and> startswith (source_keys_set ! i) k
          \<and> (\<forall>j < i. \<not> startswith (source_keys_set ! j) k)
          \<longrightarrow> map_of final (source_keys_set ! i) = Some v)
    \<and> (length k \<noteq> 255 \<or> (\<forall>sk \<in> set source_keys_set. \<not> startswith sk k)
          \<longrightarrow> UnmatchedKey (take 50 k) \<in> set msgs
            \<and> (\<exists>msgs'. save_translation (AList.delete k zh) (Some S) source_keys_set
                  = Inr (final, msgs')))"
proof -
  let ?ks = source_keys_set
  let ?u = "filter (\<lambda>k. k \<notin> set (keys S)) (keys zh)"
  let ?c = "dict_update [] (filter (\<lambda>(k, v). k \<in> set (keys S)) zh)"
  from save_translation_source [of zh ?ks S] obtain corrected msgs final where
    rp: "repair zh ?ks ?u (?c, []) = Inr (corrected, msgs)"
    and bf: "build_final (keys S) S corrected [] = Inr final"
    and st: "save_translation zh (Some S) ?ks = Inr (final, msgs)"
    by blast
  from assms(3) have "k \<in> set (keys zh)"
    by (auto simp: keys_def dest: map_of_SomeD intro: rev_image_eqI)
  with assms(4) have ku: "k \<in> set ?u" by simp
  from assms(1) have du: "distinct ?u" by simp
  from build_final_result [of "keys S" S corrected "[]"] bf have
    fin: "\<forall>k \<in> set (keys S). map_of final k =
          (case map_of corrected k of Some v \<Rightarrow> Some v | None \<Rightarrow> map_of S k)"
    by auto
  have bound: "map_of final (?ks ! i) = Some v"
    if "i < length ?ks" and "length k = 255" and "startswith (?ks ! i) k"
      and "\<forall>j < i. \<not> startswith (?ks ! j) k" for i
  proof -
    from that have f: "find (\<lambda>s. startswith s k) ?ks = Some (?ks ! i)"
      using find_first [of i ?ks "\<lambda>s. startswith s k"] by simp
    from repair_binds [OF du ku that(2) f assms(3) rp]
    have "map_of corrected (?ks ! i) = Some v" .
    moreover from that(1) assms(2) have "?ks ! i \<in> set (keys S)"
      using nth_mem by blast
    ultimately show ?thesis using fin by simp
  qed
  have dropped: "UnmatchedKey (take 50 k) \<in> set msgs
      \<and> (\<exists>msgs'. save_translation (AList.delete k zh) (Some S) ?ks = Inr (final, msgs'))"
    if "length k \<noteq> 255 \<or> (\<forall>sk \<in> set ?ks. \<not> startswith sk k)"
  proof -
    from that have cond: "length k \<noteq> 255 \<or> find (\<lambda>s. startswith s k) ?ks = None"
      by (auto simp: find_None_iff)
    from repair_warns [OF ku cond rp] have w: "UnmatchedKey (take 50 k) \<in> set msgs" .
    from repair_dropped [OF cond rp, of "[]"] obtain m2 where
      r2: "repair (AList.delete k zh) ?ks (removeAll k ?u) (?c, []) = Inr (corrected, m2)"
      by blast
    from save_translation_source [of "AList.delete k zh" ?ks S]
    obtain corrected2 msgs2 final2 where
      rp2: "repair (AList.delete k zh) ?ks
              (filter (\<lambda>k'. k' \<notin> set (keys S)) (keys (AList.delete k zh)))
              (dict_update [] (filter (\<lambda>(k', v). k' \<in> set (keys S)) (AList.delete k zh)), [])
            = Inr (corrected2, msgs2)"
      and bf2: "build_final (keys S) S corrected2 [] = Inr final2"
      and st2: "save_translation (AList.delete k zh) (Some S) ?ks = Inr (final2, msgs2)"
      by blast
    from rp2 r2 have "corrected2 = corrected"
      by (simp add: delete_unmatched delete_matched [OF assms(4)])
    with bf bf2 have "final2 = final" by simp
    with st2 w show ?thesis by blast
  qed
  from st bound dropped show ?thesis by blast
qed

theorem save_translation_unmatched_key_witness:
  "\<exists>final msgs.
     save_translation [(replicate 255 97, str ''X''), (str ''zz'', str ''Z'')]
       (Some [(replicate 255 97 @ [98], str ''A'')]) [replicate 255 97 @ [98]]
     = Inr (final, msgs)
   \<and> map_of final (replicate 255 97 @ [98]) = Some (str ''X'')
   \<and> UnmatchedKey (take 50 (str ''zz'')) \<in> set msgs
   \<and> (\<exists>msgs'.
        save_translation (AList.delete (str ''zz'')
            [(replicate 255 97, str ''X''), (str ''zz'', str ''Z'')])
          (Some [(replicate 255 97 @ [98], str ''A'')]) [replicate 255 97 @ [98]]
        = Inr (final, msgs'))"
proof -
  let ?k = "replicate 255 (97::nat)"
  let ?zh = "[(?k, str ''X''), (str ''zz'', str ''Z'')]"
  let ?S = "[(?k @ [98], str ''A'')]"
  let ?ks = "[?k @ [98]]"
  have ne: "?k \<noteq> str ''zz''"
  proof
    assume "?k = str ''zz''"
    then have "length ?k = length (str ''zz'')" by (rule arg_cong)
    then show False by (simp add: str_def)
  qed
  have ne2: "str ''zz'' \<noteq> ?k @ [98]"
  proof
    assume "str ''zz'' = ?k @ [98]"
    then have "length (str ''zz'') = length (?k @ [98])" by (rule arg_cong)
    then show False by (simp add: str_def)
  qed
  have d: "distinct (keys ?zh)" using ne by simp
  have s: "set ?ks = set (keys ?S)" by simp
  have m1: "map_of ?zh ?k = Some (str ''X'')" by simp
  have n1: "?k \<notin> set (keys ?S)" by simp
  have m2: "map_of ?zh (str ''zz'') = Some (str ''Z'')" using ne by simp
  have n2: "str ''zz'' \<notin> set (keys ?S)" using ne2 by simp
  from save_translation_unmatched_key [OF d s m1 n1] obtain final msgs where
    st: "save_translation ?zh (Some ?S) ?ks = Inr (final, msgs)"
    and b: "\<forall>i < length ?ks.
          length ?k = 255 \<and> startswith (?ks ! i) ?k
          \<and> (\<forall>j < i. \<not> startswith (?ks ! j) ?k)
          \<longrightarrow> map_of final (?ks ! i) = Some (str ''X'')"
    by blast
  from b have bound: "map_of final (?k @ [98]) = Some (str ''X'')"
    by (simp add: startswith_def)
  from save_translation_unmatched_key [OF d s m2 n2] st have
    dr: "length (str ''zz'') \<noteq> 255 \<or> (\<forall>sk \<in> set ?ks. \<not> startswith sk (str ''zz''))
          \<longrightarrow> UnmatchedKey (take 50 (str ''zz'')) \<in> set msgs
            \<and> (\<exists>msgs'. save_translation (AList.delete (str ''zz'') ?zh) (Some ?S) ?ks
                  = Inr (final, msgs'))"
    by auto
  have "length (str ''zz'') \<noteq> 255" by (simp add: str_def)
  with dr have "UnmatchedKey (take 50 (str ''zz'')) \<in> set msgs
            \<and> (\<exists>msgs'. save_translation (AList.delete (str ''zz'') ?zh) (Some ?S) ?ks
                  = Inr (final, msgs'))" by blast
  with st bound show ?thesis by blast
qed

section \<open>Properties of \<open>json_to_nbt\<close> and \<open>format_snbt\<close>\<close>

lemma json_to_nbt_strings:
  "list_all (\<lambda>x. case x of JStr s \<Rightarrow> True | _ \<Rightarrow> False) xs \<Longrightarrow>
   \<exists>ts. json_to_nbt_list xs = Inr ts \<and> list_all is_String ts"
proof (induction xs)
  case Nil
  then show ?case by simp
next
  case (Cons x xs)
  then obtain s where "x = JStr s" by (cases x) auto
  with Cons show ?case by auto
qed

lemma json_to_nbt_buildable:
  "buildable d \<longrightarrow> (\<exists>t. json_to_nbt d = Inr t)"
  "buildable_items kvs \<longrightarrow> (\<exists>ts. json_to_nbt_items kvs = Inr ts)"
proof (induction d and kvs rule: buildable_buildable_items.induct)
  case (2 xs)
  show ?case
  proof
    assume "buildable (JList xs)"
    then obtain ts where "json_to_nbt_list xs = Inr ts" "list_all is_String ts"
      using json_to_nbt_strings [of xs] by auto
    then show "\<exists>t. json_to_nbt (JList xs) = Inr t"
      by (simp add: List_String_def)
  qed
qed (auto simp: Int_tag_def)

text \<open>
  C6 (as amended). \<open>json_to_nbt\<close> returns a tree for every value made of mappings,
  sequences of strings, strings and integers of the signed 32-bit range, and raises
  \<open>ValueError\<close> for a floating-point number and for null.
\<close>

theorem json_to_nbt_shapes:
  "(buildable d \<longrightarrow> (\<exists>t. json_to_nbt d = Inr t))
   \<and> json_to_nbt (JFloat x) = Inl ValueError
   \<and> json_to_nbt JNull = Inl ValueError"
  using json_to_nbt_buildable(1) [of d] by simp

theorem json_to_nbt_shapes_witness:
  "buildable (JDict [(str ''a'', JInt 1), (str ''b'', JList [JStr (str ''x''), JStr (str ''y'')])])
   \<and> (\<exists>t. json_to_nbt
        (JDict [(str ''a'', JInt 1), (str ''b'', JList [JStr (str ''x''), JStr (str ''y'')])])
        = Inr t)"
  using json_to_nbt_shapes
    [of "JDict [(str ''a'', JInt 1), (str ''b'', JList [JStr (str ''x''), JStr (str ''y'')])]"]
  by simp

text \<open>
  C6 as stated fails: a boolean does not raise, and among the values of the four shapes a
  sequence of integers and an integer beyond 32 bits do raise.
\<close>

theorem json_to_nbt_bool_counterexample:
  "json_to_nbt (JBool True) = Inr (TagInt 1)
   \<and> permitted (JList [JInt 1, JInt 2])
   \<and> json_to_nbt (JList [JInt 1, JInt 2]) = Inl IncompatibleItemType
   \<and> permitted (JInt 2147483648)
   \<and> json_to_nbt (JInt 2147483648) = Inl OutOfRange"
  by (simp add: Int_tag_def List_String_def)

text \<open>
  C7 (as amended). The text for the mapping of \<open>a\<close> to 1 and \<open>b\<close> to the sequence of
  \<open>x\<close> and \<open>y\<close>: the key \<open>a\<close> is written bare, followed by a colon and, with no
  space, the text of the integer tag between double quotes; \<open>x\<close> and \<open>y\<close> are quoted,
  each on a line of its own, eight spaces deep inside the block of \<open>b\<close>, which is four
  spaces deep; every scalar is between double quotes and the keys are bare.
\<close>

theorem format_snbt_example:
  "json_to_nbt (JDict [(str ''a'', JInt 1), (str ''b'', JList [JStr (str ''x''), JStr (str ''y'')])])
     = Inr (TagCompound [(str ''a'', TagInt 1),
                         (str ''b'', TagList [TagString (str ''x''), TagString (str ''y'')])])
   \<and> format_snbt
       (TagCompound [(str ''a'', TagInt 1),
                     (str ''b'', TagList [TagString (str ''x''), TagString (str ''y'')])]) 0
     = str ''{'' @ [10]
       @ str ''    a:'' @ quoted (tag_str (TagInt 1)) @ [10]
       @ str ''    b:['' @ [10]
       @ str ''        '' @ quoted (str ''x'') @ [10]
       @ str ''        '' @ quoted (str ''y'') @ [10]
       @ str ''    ]'' @ [10]
       @ str ''}''"
  by code_simp

text \<open>C7 as stated fails: the key is not quoted in the text.\<close>

theorem format_snbt_key_counterexample:
  "\<not> contains (quoted (str ''a'') @ str '':'' @ quoted (str ''1''))
      (format_snbt
         (TagCompound [(str ''a'', TagInt 1),
                       (str ''b'', TagList [TagString (str ''x''), TagString (str ''y'')])]) 0)"
  by code_simp

text \<open>The text of the integer tag 1, as the source prints it.\<close>

lemma format_snbt_Int:
  "format_snbt (TagInt 1) indent = quoted (str ''Int(1)'')"
  by code_simp

section \<open>Properties of \<open>normal_json2_ftb_desc\<close>\<close>

lemma split_not_Nil: "split sep s \<noteq> []"
  by (induction s) (auto split: list.splits)

lemma split_length: "1 < length (split sep s) \<longleftrightarrow> sep \<in> set s"
proof (induction s)
  case Nil
  then show ?case by simp
next
  case (Cons c s)
  then show ?case
    using split_not_Nil [of sep s] by (auto split: list.splits)
qed

lemma split_segments: "seg \<in> set (split sep s) \<Longrightarrow> sep \<notin> set seg"
proof (induction s arbitrary: seg)
  case Nil
  then show ?case by simp
next
  case (Cons c s)
  then show ?case
    by (auto split: if_splits list.splits)
qed

lemma split_append_sep:
  "sep \<notin> set a \<Longrightarrow> split sep (a @ sep # rest) = a # split sep rest"
  by (induction a) auto

lemma key_id_of_dot:
  "(\<exists>key_id. key_id_of k = Inr key_id) \<longleftrightarrow> 46 \<in> set k"
proof -
  have "(\<exists>key_id. key_id_of k = Inr key_id) \<longleftrightarrow> 1 < length (split 46 k)"
    by (auto simp: key_id_of_def split: list.splits)
  with split_length [of 46 k] show ?thesis by simp
qed

lemma key_id_of_nth:
  "46 \<in> set k \<Longrightarrow> key_id_of k = Inr (split 46 k ! 1)"
  using split_length [of 46 k]
  by (auto simp: key_id_of_def split: list.splits)

lemma key_id_of_no_dot:
  "46 \<notin> set k \<Longrightarrow> key_id_of k = Inl IndexError"
  using key_id_of_dot [of k]
  by (auto simp: key_id_of_def split: list.splits)

lemma key_id_no_dot: "key_id_of k = Inr key_id \<Longrightarrow> 46 \<notin> set key_id"
proof -
  assume "key_id_of k = Inr key_id"
  then have "key_id \<in> set (split 46 k)"
    by (auto simp: key_id_of_def split: list.splits)
  then show ?thesis by (rule split_segments)
qed

lemma key_id_of_new_key:
  assumes "46 \<notin> set key_id"
  shows "key_id_of (str ''quest.'' @ key_id @ str ''.quest_desc'') = Inr key_id"
proof -
  have e: "str ''quest.'' @ key_id @ str ''.quest_desc''
      = str ''quest'' @ 46 # (key_id @ 46 # str ''quest_desc'')"
    by (simp add: str_def)
  have "46 \<notin> set (str ''quest'')" by (simp add: str_def)
  then have "split 46 (str ''quest.'' @ key_id @ str ''.quest_desc'')
      = str ''quest'' # key_id # split 46 (str ''quest_desc'')"
    unfolding e using assms by (simp add: split_append_sep)
  then show ?thesis by (simp add: key_id_of_def)
qed

lemma desc_loop_total:
  "(\<exists>r. desc_loop rest en (t, s) = Inr r)
   \<longleftrightarrow> (\<forall>k \<in> set (keys rest). contains (str ''desc'') k \<longrightarrow> 46 \<in> set k)"
proof (induction rest arbitrary: t s)
  case Nil
  then show ?case by simp
next
  case (Cons p rest)
  obtain k v where p: "p = (k, v)" by (cases p)
  show ?case
  proof (cases "contains (str ''desc'') k")
    case False
    with Cons p show ?thesis by simp
  next
    case True
    show ?thesis
    proof (cases "46 \<in> set k")
      case dot: True
      then obtain key_id where "key_id_of k = Inr key_id"
        using key_id_of_dot by blast
      with Cons p True dot show ?thesis by (simp add: Let_def)
    next
      case False
      with p True show ?thesis by (simp add: key_id_of_no_dot)
    qed
  qed
qed

lemma desc_loop_error:
  "desc_loop rest en (t, s) = Inl e \<Longrightarrow> e = IndexError"
proof (induction rest arbitrary: t s)
  case Nil
  then show ?case by simp
next
  case (Cons p rest)
  obtain k v where p: "p = (k, v)" by (cases p)
  show ?case
  proof (cases "contains (str ''desc'') k \<and> 46 \<notin> set k")
    case True
    with Cons.prems p show ?thesis by (simp add: key_id_of_no_dot)
  next
    case False
    show ?thesis
    proof (cases "contains (str ''desc'') k")
      case c: True
      with False obtain key_id where "key_id_of k = Inr key_id"
        using key_id_of_dot by blast
      with Cons p c show ?thesis by (simp add: Let_def)
    next
      case c: False
      with Cons p show ?thesis by simp
    qed
  qed
qed

lemma eval_dumps_free:
  "surrogate_free doc \<Longrightarrow> eval_dumps doc = Inr (map (\<lambda>(k, v). (k, JStr v)) doc)"
  by (simp add: eval_dumps_def surrogate_free_def)

lemma eval_dumps_Inr:
  "eval_dumps doc = Inr en \<Longrightarrow> en = map (\<lambda>(k, v). (k, JStr v)) doc"
  by (simp add: eval_dumps_def split: if_splits)

text \<open>
  C10 (as amended). A key with a dot has a second segment, which is its identifier. For a
  document without surrogate code points: when every key that contains \<open>desc\<close> has a
  dot, \<open>normal_json2_ftb_desc\<close> returns a document; when some such key has no dot, as
  the key \<open>desc\<close> itself, it raises \<open>IndexError\<close>.
\<close>

theorem normal_json2_ftb_desc_total:
  "(\<forall>k. 46 \<in> set k \<longrightarrow> 1 < length (split 46 k) \<and> key_id_of k = Inr (split 46 k ! 1))
   \<and> (surrogate_free doc
        \<and> (\<forall>k \<in> set (keys doc). contains (str ''desc'') k \<longrightarrow> 46 \<in> set k)
        \<longrightarrow> (\<exists>r. normal_json2_ftb_desc doc = Inr r))
   \<and> (surrogate_free doc
        \<and> (\<exists>k \<in> set (keys doc). contains (str ''desc'') k \<and> 46 \<notin> set k)
        \<longrightarrow> normal_json2_ftb_desc doc = Inl IndexError)
   \<and> (\<not> has_surrogate v \<longrightarrow> normal_json2_ftb_desc [(str ''desc'', v)] = Inl IndexError)"
proof -
  let ?en = "map (\<lambda>(k, v). (k, JStr v)) doc"
  have k: "keys ?en = keys doc"
    by (simp add: keys_def case_prod_beta comp_def)
  have a: "\<exists>r. normal_json2_ftb_desc doc = Inr r"
    if sf: "surrogate_free doc"
      and "\<forall>k \<in> set (keys doc). contains (str ''desc'') k \<longrightarrow> 46 \<in> set k"
  proof -
    from that desc_loop_total [of ?en ?en "[]" "[]"] k obtain r where
      "desc_loop ?en ?en ([], []) = Inr r" by auto
    then show ?thesis
      by (cases r) (simp add: normal_json2_ftb_desc_def eval_dumps_free [OF sf])
  qed
  have b: "normal_json2_ftb_desc doc = Inl IndexError"
    if sf: "surrogate_free doc"
      and "\<exists>k \<in> set (keys doc). contains (str ''desc'') k \<and> 46 \<notin> set k"
  proof -
    from that desc_loop_total [of ?en ?en "[]" "[]"] k have
      "\<not> (\<exists>r. desc_loop ?en ?en ([], []) = Inr r)" by auto
    then obtain e where e: "desc_loop ?en ?en ([], []) = Inl e"
      by (cases "desc_loop ?en ?en ([], [])") auto
    from desc_loop_error [OF e] e show ?thesis
      by (simp add: normal_json2_ftb_desc_def eval_dumps_free [OF sf])
  qed
  have c: "normal_json2_ftb_desc [(str ''desc'', v)] = Inl IndexError"
    if "\<not> has_surrogate v"
    using that
    by (simp add: normal_json2_ftb_desc_def eval_dumps_def has_surrogate_def key_id_of_def
        str_def)
  have d: "1 < length (split 46 k) \<and> key_id_of k = Inr (split 46 k ! 1)"
    if "46 \<in> set k" for k :: pystr
    using that split_length [of 46 k] key_id_of_nth [of k] by simp
  from a b c d show ?thesis
    by blast
qed

theorem normal_json2_ftb_desc_total_witness:
  "(\<exists>r. normal_json2_ftb_desc
          [(str ''quest.1.desc'', str ''D''), (str ''title'', str ''T'')] = Inr r)
   \<and> key_id_of (str ''quest.1.desc'') = Inr (split 46 (str ''quest.1.desc'') ! 1)
   \<and> normal_json2_ftb_desc [(str ''desc'', str ''D'')] = Inl IndexError"
proof -
  let ?doc = "[(str ''quest.1.desc'', str ''D''), (str ''title'', str ''T'')]"
  have h: "\<forall>k \<in> set (keys ?doc). contains (str ''desc'') k \<longrightarrow> 46 \<in> set k"
    by (simp add: str_def)
  have dot: "46 \<in> set (str ''quest.1.desc'')" by (simp add: str_def)
  have sf: "surrogate_free ?doc" by (simp add: surrogate_free_def has_surrogate_def str_def)
  have ns: "\<not> has_surrogate (str ''D'')" by (simp add: has_surrogate_def str_def)
  note t = normal_json2_ftb_desc_total [of ?doc "str ''D''"]
  from t h sf have "\<exists>r. normal_json2_ftb_desc ?doc = Inr r" by blast
  moreover from t dot have
    "key_id_of (str ''quest.1.desc'') = Inr (split 46 (str ''quest.1.desc'') ! 1)" by blast
  moreover from t ns have "normal_json2_ftb_desc [(str ''desc'', str ''D'')] = Inl IndexError"
    by blast
  ultimately show ?thesis by blast
qed

text \<open>
  C10 as stated fails: in a document whose only key has no \<open>desc\<close>, a value that
  holds the surrogate U+D800 makes the function raise.
\<close>

theorem normal_json2_ftb_desc_surrogate_counterexample:
  "\<not> contains (str ''desc'') (str ''k'')
   \<and> normal_json2_ftb_desc [(str ''k'', [55296])] = Inl UnicodeEncodeError"
  by (simp add: normal_json2_ftb_desc_def eval_dumps_def has_surrogate_def str_def)

lemma fold_delete_filter:
  "fold AList.delete s d = filter (\<lambda>p. fst p \<notin> set s) d"
proof (induction s arbitrary: d)
  case Nil
  then show ?case by simp
next
  case (Cons k s)
  have "AList.delete k d = filter (\<lambda>p. fst p \<noteq> k) d"
    by (induction d) auto
  with Cons show ?case by (auto intro: filter_cong)
qed

lemma keys_dict_update:
  "set (keys (dict_update d e)) = set (keys d) \<union> set (keys e)"
  unfolding dict_update_def
proof (induction e arbitrary: d)
  case Nil
  then show ?case by simp
next
  case (Cons p e)
  obtain k v where p: "p = (k, v)" by (cases p)
  have "set (keys (AList.update k v d)) = insert k (set (keys d))"
    using AList.dom_update [of k v d] by (simp add: keys_def)
  with Cons [of "AList.update k v d"] p show ?case by auto
qed

lemma distinct_dict_update:
  "distinct (keys d) \<Longrightarrow> distinct (keys (dict_update d e))"
  unfolding dict_update_def
proof (induction e arbitrary: d)
  case Nil
  then show ?case by simp
next
  case (Cons p e)
  obtain k v where p: "p = (k, v)" by (cases p)
  from Cons.prems have "distinct (keys (AList.update k v d))"
    by (simp add: keys_def AList.distinct_update)
  from Cons.IH [OF this] p show ?case by simp
qed

lemma desc_loop_result:
  assumes "desc_loop rest en (t, s) = Inr (t', s')"
  shows "set s' = set s \<union> {k \<in> set (keys rest). contains (str ''desc'') k}"
    and "\<forall>k \<in> set (keys t'). k \<in> set (keys t)
          \<or> (\<exists>key_id. 46 \<notin> set key_id \<and> k = str ''quest.'' @ key_id @ str ''.quest_desc'')"
  using assms
proof (induction rest arbitrary: t s)
  case Nil
  { case 1 then show ?case by simp }
  { case 2 then show ?case by simp }
next
  case (Cons p rest)
  obtain k v where p: "p = (k, v)" by (cases p)
  { case 1
    show ?case
    proof (cases "contains (str ''desc'') k")
      case False
      with 1 p Cons.IH(1) [of t s] show ?thesis by auto
    next
      case True
      with 1 p obtain key_id t1 where
        r: "desc_loop rest en (t1, List.insert k s) = Inr (t', s')"
        by (auto simp: Let_def split: sum.splits)
      from Cons.IH(1) [OF r] True p show ?thesis by auto
    qed }
  { case 2
    show ?case
    proof (cases "contains (str ''desc'') k")
      case False
      with 2 p Cons.IH(2) [of t s] show ?thesis by auto
    next
      case True
      with 2 p obtain key_id where kid: "key_id_of k = Inr key_id" and
        r: "desc_loop rest en
              (AList.update (str ''quest.'' @ key_id @ str ''.quest_desc'')
                 (JList (map snd (filter (\<lambda>(k', v'). contains (key_id @ str ''.quest_desc'') k') en))) t,
               List.insert k s) = Inr (t', s')"
        by (auto simp: Let_def split: sum.splits)
      have nd: "46 \<notin> set key_id" using kid by (rule key_id_no_dot)
      have "set (keys (AList.update (str ''quest.'' @ key_id @ str ''.quest_desc'')
                 (JList (map snd (filter (\<lambda>(k', v'). contains (key_id @ str ''.quest_desc'') k') en))) t))
            = insert (str ''quest.'' @ key_id @ str ''.quest_desc'') (set (keys t))"
        using AList.dom_update [of "str ''quest.'' @ key_id @ str ''.quest_desc''" _ t]
        by (simp add: keys_def)
      with Cons.IH(2) [OF r] nd show ?thesis by blast
    qed }
qed

lemma contains_append_right: "contains n b \<Longrightarrow> contains n (a @ b)"
  by (induction a) auto

lemma new_key_contains_desc:
  "contains (str ''desc'') (str ''quest.'' @ key_id @ str ''.quest_desc'')"
proof -
  have "contains (str ''desc'') (str ''.quest_desc'')" by (simp add: str_def)
  then have "contains (str ''desc'') (key_id @ str ''.quest_desc'')"
    by (rule contains_append_right)
  then show ?thesis by (rule contains_append_right)
qed

lemma normal_json2_ftb_desc_keys:
  assumes "normal_json2_ftb_desc doc = Inr r"
  shows "\<forall>k \<in> set (keys r). (k \<in> set (keys doc) \<and> \<not> contains (str ''desc'') k)
          \<or> (\<exists>key_id. 46 \<notin> set key_id \<and> k = str ''quest.'' @ key_id @ str ''.quest_desc'')"
    and "distinct (keys doc) \<Longrightarrow> distinct (keys r)"
proof -
  let ?en = "map (\<lambda>(k, v). (k, JStr v)) doc"
  have k: "keys ?en = keys doc"
    by (simp add: keys_def case_prod_beta comp_def)
  from assms obtain t s where
    dl: "desc_loop ?en ?en ([], []) = Inr (t, s)"
    and r: "r = dict_update (fold AList.delete s ?en) t"
    by (auto simp: normal_json2_ftb_desc_def split: sum.splits prod.splits
        dest!: eval_dumps_Inr)
  from desc_loop_result [OF dl] k have
    s: "set s = {k \<in> set (keys doc). contains (str ''desc'') k}"
    and t: "\<forall>k \<in> set (keys t).
          (\<exists>key_id. 46 \<notin> set key_id \<and> k = str ''quest.'' @ key_id @ str ''.quest_desc'')"
    by auto
  let ?rem = "fold AList.delete s ?en"
  have rem: "keys ?rem = filter (\<lambda>k. k \<notin> set s) (keys ?en)"
    by (simp add: fold_delete_filter keys_def filter_map comp_def)
  show "\<forall>k \<in> set (keys r). (k \<in> set (keys doc) \<and> \<not> contains (str ''desc'') k)
          \<or> (\<exists>key_id. 46 \<notin> set key_id \<and> k = str ''quest.'' @ key_id @ str ''.quest_desc'')"
  proof
    fix x assume "x \<in> set (keys r)"
    then have "x \<in> set (keys ?rem) \<or> x \<in> set (keys t)"
      by (simp add: r keys_dict_update)
    then show "(x \<in> set (keys doc) \<and> \<not> contains (str ''desc'') x)
          \<or> (\<exists>key_id. 46 \<notin> set key_id \<and> x = str ''quest.'' @ key_id @ str ''.quest_desc'')"
    proof
      assume "x \<in> set (keys ?rem)"
      with rem k s show ?thesis by auto
    next
      assume "x \<in> set (keys t)"
      with t show ?thesis by blast
    qed
  qed
  show "distinct (keys r)" if "distinct (keys doc)"
  proof -
    from that k rem have "distinct (keys ?rem)" by simp
    then show ?thesis unfolding r by (rule distinct_dict_update)
  qed
qed

text \<open>
  C5. The document of \<open>quest.1.desc\<close> (with a value free of surrogate code points), \<open>quest.1.quest_desc.0\<close> with value A and
  \<open>quest.1.quest_desc.1\<close> with value B becomes the single key \<open>quest.1.quest_desc\<close>
  bound to the sequence of A and B, without \<open>quest.1.desc\<close>. In every result the keys
  are distinct and at most one key that contains \<open>desc\<close> carries a given identifier.
\<close>

theorem normal_json2_ftb_desc_dedup:
  "(\<not> has_surrogate d \<longrightarrow>
     normal_json2_ftb_desc
       [(str ''quest.1.desc'', d), (str ''quest.1.quest_desc.0'', str ''A''),
        (str ''quest.1.quest_desc.1'', str ''B'')]
     = Inr [(str ''quest.1.quest_desc'', JList [JStr (str ''A''), JStr (str ''B'')])])
   \<and> (distinct (keys doc) \<and> normal_json2_ftb_desc doc = Inr r \<longrightarrow>
        distinct (keys r)
        \<and> (\<forall>key_id. length (filter (\<lambda>k. contains (str ''desc'') k \<and> key_id_of k = Inr key_id)
                                (keys r)) \<le> 1))"
proof (intro conjI impI allI)
  assume "\<not> has_surrogate d"
  then show "normal_json2_ftb_desc
       [(str ''quest.1.desc'', d), (str ''quest.1.quest_desc.0'', str ''A''),
        (str ''quest.1.quest_desc.1'', str ''B'')]
     = Inr [(str ''quest.1.quest_desc'', JList [JStr (str ''A''), JStr (str ''B'')])]"
    by (simp add: normal_json2_ftb_desc_def eval_dumps_def has_surrogate_def key_id_of_def
        dict_update_def str_def List.insert_def)
next
  assume a: "distinct (keys doc) \<and> normal_json2_ftb_desc doc = Inr r"
  then show "distinct (keys r)"
    using normal_json2_ftb_desc_keys(2) by blast
next
  fix key_id
  assume a: "distinct (keys doc) \<and> normal_json2_ftb_desc doc = Inr r"
  then have dr: "distinct (keys r)"
    using normal_json2_ftb_desc_keys(2) by blast
  let ?K = "filter (\<lambda>k. contains (str ''desc'') k \<and> key_id_of k = Inr key_id) (keys r)"
  have "x = str ''quest.'' @ key_id @ str ''.quest_desc''" if "x \<in> set ?K" for x
  proof -
    from that have xr: "x \<in> set (keys r)" and c: "contains (str ''desc'') x"
      and kid: "key_id_of x = Inr key_id" by auto
    from normal_json2_ftb_desc_keys(1) [of doc r] a xr c obtain i where
      i: "46 \<notin> set i" "x = str ''quest.'' @ i @ str ''.quest_desc''" by blast
    from key_id_of_new_key [OF i(1)] kid i(2) have "i = key_id" by simp
    with i(2) show ?thesis by simp
  qed
  then have "set ?K \<subseteq> {str ''quest.'' @ key_id @ str ''.quest_desc''}" by blast
  then have "card (set ?K) \<le> card {str ''quest.'' @ key_id @ str ''.quest_desc''}"
    by (intro card_mono) simp_all
  then have "card (set ?K) \<le> 1" by simp
  moreover from dr have "distinct ?K" by simp
  ultimately show "length ?K \<le> 1"
    using distinct_card [of ?K] by presburger
qed

theorem normal_json2_ftb_desc_dedup_witness:
  "distinct (keys [(str ''quest.1.desc'', str ''D''), (str ''quest.1.quest_desc.0'', str ''A''),
      (str ''quest.1.quest_desc.1'', str ''B'')])
   \<and> normal_json2_ftb_desc
       [(str ''quest.1.desc'', str ''D''), (str ''quest.1.quest_desc.0'', str ''A''),
        (str ''quest.1.quest_desc.1'', str ''B'')]
     = Inr [(str ''quest.1.quest_desc'', JList [JStr (str ''A''), JStr (str ''B'')])]
   \<and> length (filter (\<lambda>k. contains (str ''desc'') k \<and> key_id_of k = Inr (str ''1''))
              (keys [(str ''quest.1.quest_desc'', JList [JStr (str ''A''), JStr (str ''B'')])]))
       \<le> 1"
proof -
  let ?doc = "[(str ''quest.1.desc'', str ''D''), (str ''quest.1.quest_desc.0'', str ''A''),
      (str ''quest.1.quest_desc.1'', str ''B'')]"
  let ?r = "[(str ''quest.1.quest_desc'', JList [JStr (str ''A''), JStr (str ''B'')])]"
  have h: "distinct (keys ?doc)" by (simp add: str_def)
  have ns: "\<not> has_surrogate (str ''D'')" by (simp add: has_surrogate_def str_def)
  note t = normal_json2_ftb_desc_dedup [of "str ''D''" ?doc ?r]
  from t ns have run: "normal_json2_ftb_desc ?doc = Inr ?r" by blast
  with t h have "\<forall>key_id. length (filter (\<lambda>k. contains (str ''desc'') k
        \<and> key_id_of k = Inr key_id) (keys ?r)) \<le> 1" by blast
  then have "length (filter (\<lambda>k. contains (str ''desc'') k \<and> key_id_of k = Inr (str ''1''))
              (keys ?r)) \<le> 1" by blast
  with h run show ?thesis by blast
qed

text \<open>
  C9. The values are collected by containment of the identifier followed by
  \<open>.quest_desc\<close>: with the identifiers 1 and 11 in one document (its values free of
  surrogate code points), the sequence of quest 1 also holds the value of the key of
  quest 11.
\<close>

theorem normal_json2_ftb_desc_substring:
  assumes "\<not> has_surrogate a" and "\<not> has_surrogate b" and "\<not> has_surrogate d"
  shows "normal_json2_ftb_desc
     [(str ''quest.1.desc'', d), (str ''quest.1.quest_desc.0'', a),
      (str ''quest.11.quest_desc.0'', b)]
   = Inr [(str ''quest.1.quest_desc'', JList [JStr a, JStr b]),
          (str ''quest.11.quest_desc'', JList [JStr b])]"
  using assms
  by (simp add: normal_json2_ftb_desc_def eval_dumps_def has_surrogate_def key_id_of_def
      dict_update_def str_def List.insert_def)

theorem normal_json2_ftb_desc_substring_witness:
  "normal_json2_ftb_desc
     [(str ''quest.1.desc'', str ''D''), (str ''quest.1.quest_desc.0'', str ''A''),
      (str ''quest.11.quest_desc.0'', str ''B'')]
   = Inr [(str ''quest.1.quest_desc'', JList [JStr (str ''A''), JStr (str ''B'')]),
          (str ''quest.11.quest_desc'', JList [JStr (str ''B'')])]"
proof -
  have a: "\<not> has_surrogate (str ''A'')" by (simp add: has_surrogate_def str_def)
  have b: "\<not> has_surrogate (str ''B'')" by (simp add: has_surrogate_def str_def)
  have d: "\<not> has_surrogate (str ''D'')" by (simp add: has_surrogate_def str_def)
  from normal_json2_ftb_desc_substring [OF a b d] show ?thesis .
qed

section \<open>Properties of \<open>process_translation\<close>\<close>

lemma has_cjk_Cons: "has_cjk (c # cs) = ((19968 \<le> c \<and> c \<le> 40959) \<or> has_cjk cs)"
  by (simp add: has_cjk_def)

lemma has_cjk_sub_backslashes: "has_cjk (sub_backslashes v) = has_cjk v"
  by (induction v rule: sub_backslashes.induct) (auto simp: has_cjk_Cons)

lemma has_cjk_sub_newlines: "has_cjk (sub_newlines v) = has_cjk v"
  by (induction v rule: sub_newlines.induct) (auto simp: has_cjk_Cons)

lemma translate_loop_lengths:
  "translate_loop its (ks0, vs0) = Inr (ks, vs) \<Longrightarrow> length ks0 = length vs0
    \<Longrightarrow> length ks = length vs"
proof (induction its arbitrary: ks0 vs0)
  case Nil
  then show ?case by simp
next
  case (Cons it its)
  then show ?case
    by (auto simp: Let_def split: option.splits)
qed

lemma fold_update_other:
  "k \<notin> set ks \<Longrightarrow>
   map_of (fold (\<lambda>(k, value) d. AList.update k (f value) d) (zip ks vs) d) k = map_of d k"
proof (induction ks arbitrary: vs d)
  case Nil
  then show ?case by simp
next
  case (Cons a ks)
  then show ?case
    by (cases vs) (auto simp: AList.update_conv')
qed

lemma fold_update_nth:
  "distinct ks \<Longrightarrow> i < length ks \<Longrightarrow> i < length vs \<Longrightarrow>
   map_of (fold (\<lambda>(k, value) d. AList.update k (f value) d) (zip ks vs) d) (ks ! i)
     = Some (f (vs ! i))"
proof (induction ks arbitrary: vs d i)
  case Nil
  then show ?case by simp
next
  case (Cons a ks)
  from Cons.prems obtain b vs' where vs: "vs = b # vs'" by (cases vs) auto
  show ?case
  proof (cases i)
    case 0
    with Cons.prems vs show ?thesis
      by (simp add: fold_update_other AList.update_conv')
  next
    case (Suc j)
    with Cons.prems vs Cons.IH [of j vs'] show ?thesis by simp
  qed
qed

lemma sub_spaces_no_space: "32 \<notin> set (sub_spaces v)"
  by (auto simp: sub_spaces_def)

text \<open>
  C8. Normalization of a value that contains a CJK ideograph replaces every space by a
  no-break space: the result is the value after the two substitutions of backslashes with
  each space replaced, and holds no space. A value without a CJK ideograph is left
  unchanged by this rule: the result is the value after the two substitutions of
  backslashes.
\<close>

theorem normalize_cjk_spaces:
  "(has_cjk v \<longrightarrow>
      normalize v = map (\<lambda>c. if c = 32 then 160 else c) (sub_newlines (sub_backslashes v))
      \<and> 32 \<notin> set (normalize v))
   \<and> (\<not> has_cjk v \<longrightarrow> normalize v = sub_newlines (sub_backslashes v))
   \<and> normalize [20320, 22909, 32, 19990, 30028] = [20320, 22909, 160, 19990, 30028]
   \<and> normalize (str ''hello world'') = str ''hello world''"
proof -
  have a: "normalize v = map (\<lambda>c. if c = 32 then 160 else c) (sub_newlines (sub_backslashes v))"
    if "has_cjk v"
    using that
    by (simp add: normalize_def sub_spaces_def Let_def has_cjk_sub_backslashes
        has_cjk_sub_newlines)
  have b: "32 \<notin> set (normalize v)" if "has_cjk v"
    using that sub_spaces_no_space [of "sub_newlines (sub_backslashes v)"]
    by (simp add: normalize_def Let_def has_cjk_sub_backslashes has_cjk_sub_newlines)
  have c: "normalize v = sub_newlines (sub_backslashes v)" if "\<not> has_cjk v"
    using that
    by (simp add: normalize_def Let_def has_cjk_sub_backslashes has_cjk_sub_newlines)
  have d: "normalize [20320, 22909, 32, 19990, 30028] = [20320, 22909, 160, 19990, 30028]"
    by (simp add: normalize_def has_cjk_def sub_spaces_def Let_def)
  have e: "normalize (str ''hello world'') = str ''hello world''"
    by (simp add: normalize_def has_cjk_def sub_spaces_def str_def Let_def)
  from a b c d e show ?thesis by blast
qed

theorem normalize_cjk_spaces_witness:
  "has_cjk ([20013, 32, 25991, 32] @ str ''a b'')
   \<and> normalize ([20013, 32, 25991, 32] @ str ''a b'') = [20013, 160, 25991, 160, 97, 160, 98]
   \<and> 32 \<notin> set (normalize ([20013, 32, 25991, 32] @ str ''a b''))
   \<and> \<not> has_cjk (str ''a b'' @ [92, 110])
   \<and> normalize (str ''a b'' @ [92, 110]) = str ''a b'' @ [10]"
proof -
  have h1: "has_cjk ([20013, 32, 25991, 32] @ str ''a b'')"
    by (simp add: has_cjk_def)
  have h2: "\<not> has_cjk (str ''a b'' @ [92, 110])"
    by (simp add: has_cjk_def str_def)
  from normalize_cjk_spaces [of "[20013, 32, 25991, 32] @ str ''a b''"] h1 have
    "normalize ([20013, 32, 25991, 32] @ str ''a b'')
       = map (\<lambda>c. if c = 32 then 160 else c)
           (sub_newlines (sub_backslashes ([20013, 32, 25991, 32] @ str ''a b'')))"
    and n: "32 \<notin> set (normalize ([20013, 32, 25991, 32] @ str ''a b''))"
    by blast+
  then have a: "normalize ([20013, 32, 25991, 32] @ str ''a b'')
       = [20013, 160, 25991, 160, 97, 160, 98]"
    by (simp add: str_def)
  from normalize_cjk_spaces [of "str ''a b'' @ [92, 110]"] h2 have
    "normalize (str ''a b'' @ [92, 110]) = sub_newlines (sub_backslashes (str ''a b'' @ [92, 110]))"
    by blast
  then have b: "normalize (str ''a b'' @ [92, 110]) = str ''a b'' @ [10]"
    by (simp add: str_def)
  from h1 a n h2 b show ?thesis by blast
qed

text \<open>
  What \<open>process_translation\<close> stores for an entry, the keys of the entries being
  distinct: the normalized value in a file that is not a quest file; in a quest file the
  value with its spaces replaced only when it contains a CJK ideograph and does not
  contain \<open>image\<close>.
\<close>

lemma process_translation_stored:
  assumes "translate translations = Inr (ks, vs)" and "distinct ks" and "i < length ks"
  shows "\<exists>d w. process_translation translations source path_name = Inr d
    \<and> map_of d (ks ! i) = Some w
    \<and> w = (if contains (str ''ftbquest'') path_name
           then (if has_cjk (vs ! i) \<and> \<not> contains (str ''image'') (vs ! i)
                 then map (\<lambda>c. if c = 32 then 160 else c) (vs ! i)
                 else vs ! i)
           else (if has_cjk (vs ! i)
                 then map (\<lambda>c. if c = 32 then 160 else c)
                        (sub_newlines (sub_backslashes (vs ! i)))
                 else sub_newlines (sub_backslashes (vs ! i))))"
proof -
  from assms(1) have "length ks = length vs"
    using translate_loop_lengths [of _ "[]" "[]" ks vs] by (simp add: translate_def)
  with assms(3) have iv: "i < length vs" by simp
  show ?thesis
  proof (cases "contains (str ''ftbquest'') path_name")
    case True
    have "map_of (fold (\<lambda>(k, value) d. AList.update k (quest_value value) d) (zip ks vs) [])
            (ks ! i) = Some (quest_value (vs ! i))"
      using assms(2,3) iv by (rule fold_update_nth)
    moreover have "process_translation translations source path_name
        = Inr (fold (\<lambda>(k, value) d. AList.update k (quest_value value) d) (zip ks vs) [])"
      using True assms(1) by (simp add: process_translation_def Let_def)
    moreover have "quest_value (vs ! i) =
        (if has_cjk (vs ! i) \<and> \<not> contains (str ''image'') (vs ! i)
         then map (\<lambda>c. if c = 32 then 160 else c) (vs ! i) else vs ! i)"
      by (simp add: quest_value_def sub_spaces_def)
    ultimately show ?thesis using True by simp
  next
    case False
    have "map_of (fold (\<lambda>(k, value) d. AList.update k (normalize value) d) (zip ks vs)
                    (case source of Some d \<Rightarrow> d | None \<Rightarrow> []))
            (ks ! i) = Some (normalize (vs ! i))"
      using assms(2,3) iv by (rule fold_update_nth)
    moreover have "process_translation translations source path_name
        = Inr (fold (\<lambda>(k, value) d. AList.update k (normalize value) d) (zip ks vs)
                    (case source of Some d \<Rightarrow> d | None \<Rightarrow> []))"
      using False assms(1) by (simp add: process_translation_def Let_def)
    moreover have "normalize (vs ! i) =
        (if has_cjk (vs ! i)
         then map (\<lambda>c. if c = 32 then 160 else c) (sub_newlines (sub_backslashes (vs ! i)))
         else sub_newlines (sub_backslashes (vs ! i)))"
      by (simp add: normalize_def sub_spaces_def Let_def
          has_cjk_sub_backslashes has_cjk_sub_newlines)
    ultimately show ?thesis using False by simp
  qed
qed

text \<open>
  In a quest file a value with a CJK ideograph that contains \<open>image\<close> keeps its
  space.
\<close>

lemma process_translation_quest_image:
  "process_translation
     [\<lparr>key = Some (str ''k''), translation = Some ([22270, 32] @ str ''image''),
       original = Some (str ''image''), stage = Some 1\<rparr>]
     None (str ''ftbquests_en_us.json'')
   = Inr [(str ''k'', [22270, 32] @ str ''image'')]
   \<and> has_cjk ([22270, 32] @ str ''image'')
   \<and> 32 \<in> set ([22270, 32] @ str ''image'')"
  by (simp add: process_translation_def translate_def str_def quest_value_def has_cjk_def
      get_default_def Let_def)

text \<open>
  The scenario of the two functions together: the source document maps \<open>a\<close> to A and
  \<open>b\<close> to B, and the one entry translates \<open>a\<close> at stage 1.
\<close>

lemma end_to_end_scenario:
  "process_translation
     [\<lparr>key = Some (str ''a''), translation = Some [30002], original = Some (str ''A''),
       stage = Some 1\<rparr>]
     (Some [(str ''a'', str ''A''), (str ''b'', str ''B'')]) (str ''en_us.json'')
   = Inr [(str ''a'', [30002]), (str ''b'', str ''B'')]
   \<and> save_translation [(str ''a'', [30002]), (str ''b'', str ''B'')]
       (Some [(str ''a'', str ''A''), (str ''b'', str ''B'')]) [str ''b'', str ''a'']
   = Inr ([(str ''a'', [30002]), (str ''b'', str ''B'')], [])"
  by (simp add: process_translation_def translate_def get_default_def normalize_def
      has_cjk_def sub_spaces_def save_translation_def getitem_def str_def Let_def)

end
